theory Spec2Isabelle
  imports Main "HOL-Library.Multiset"
begin

section \<open>Data model of \<open>src/git.ts\<close>\<close>

type_synonym Ref = string
type_synonym RepoName = string
type_synonym RepoOwner = string
type_synonym Sha = string
type_synonym CommitMessage = string

text \<open>
  One element of the array returned by \<open>octokit.paginate\<close> for the pull request's commit
  listing (\<open>Octokit.PullsListCommitsResponseItem\<close>), with the fields the module reads:
  \<open>sha\<close>, the \<open>sha\<close> of every entry of \<open>parents\<close>, and \<open>commit.author\<close>,
  \<open>commit.committer\<close>, \<open>commit.message\<close>, \<open>commit.tree.sha\<close>. Author and committer are
  opaque to the module; their type is the parameter \<open>'u\<close>.
\<close>

record 'u PullsListCommitsResponseItem =
  sha :: Sha
  parents :: "Sha list"
  commit_author :: 'u
  commit_committer :: 'u
  commit_message :: CommitMessage
  commit_tree :: Sha

text \<open>The type \<open>CommitDetails\<close>. Its field \<open>sha\<close> is named \<open>details_sha\<close> here.\<close>

record 'u CommitDetails =
  author :: 'u
  committer :: 'u
  message :: CommitMessage
  details_sha :: Sha
  tree :: Sha

text \<open>
  The only exception the reordering loops of \<open>fetchCommitsDetails\<close> can raise by themselves:
  \<open>commits[j].parents[0].sha\<close> reads a property of \<open>undefined\<close> when \<open>parents\<close> is empty.
\<close>

datatype error = TypeError

section \<open>The reordering step of \<open>fetchCommitsDetails\<close>\<close>

text \<open>
  \<open>commits.splice(i, 1)[0]\<close> removes the element at index \<open>i\<close> and yields it; the loops call
  it under the guard \<open>i < commits.length\<close> only. \<open>commits.splice(k, 0, x)\<close> inserts \<open>x\<close>
  before index \<open>k\<close>, and at the end when \<open>k\<close> is beyond the length (\<open>take\<close> and \<open>drop\<close>
  clamp the same way). In \<open>commits.splice(k, 0, commits.splice(i, 1)[0])\<close> the argument is
  evaluated first, so the insertion acts on the array without the removed element.
\<close>

definition splice_remove :: "nat \<Rightarrow> 'a list \<Rightarrow> 'a \<times> 'a list" where
  "splice_remove i cs = (cs ! i, take i cs @ drop (Suc i) cs)"

definition splice_insert :: "nat \<Rightarrow> 'a \<Rightarrow> 'a list \<Rightarrow> 'a list" where
  "splice_insert k x cs = take k cs @ x # drop k cs"

definition move :: "nat \<Rightarrow> nat \<Rightarrow> 'a list \<Rightarrow> 'a list" where
  "move i k cs = (case splice_remove i cs of (x, ys) \<Rightarrow> splice_insert k x ys)"

lemma length_move: "i < length cs \<Longrightarrow> length (move i k cs) = length cs"
  by (auto simp: move_def splice_remove_def splice_insert_def)

lemma mset_splice_insert: "mset (splice_insert k x ys) = add_mset x (mset ys)"
proof -
  have "mset (splice_insert k x ys) = add_mset x (mset (take k ys) + mset (drop k ys))"
    by (simp add: splice_insert_def)
  also have "mset (take k ys) + mset (drop k ys) = mset (take k ys @ drop k ys)"
    by (simp only: mset_append)
  finally show ?thesis
    by (simp only: append_take_drop_id)
qed

lemma mset_move: "i < length cs \<Longrightarrow> mset (move i k cs) = mset cs"
proof -
  assume i: "i < length cs"
  have "mset (move i k cs) = add_mset (cs ! i) (mset (take i cs @ drop (Suc i) cs))"
    by (simp only: move_def splice_remove_def prod.case mset_splice_insert)
  also have "\<dots> = mset (take i cs @ cs ! i # drop (Suc i) cs)"
    by simp
  also have "\<dots> = mset cs"
    using i by (simp add: id_take_nth_drop [symmetric])
  finally show ?thesis .
qed

text \<open>
  The first loop: \<open>for (var i = 0; i < commits.length; i++)\<close> moves every element whose
  \<open>sha\<close> is the pull request's head SHA to index 0. There is no \<open>break\<close> and no check that
  an element was found.
\<close>

function head_loop :: "Sha \<Rightarrow> nat \<Rightarrow> 'u PullsListCommitsResponseItem list
    \<Rightarrow> 'u PullsListCommitsResponseItem list" where
  "head_loop h i commits =
     (if i < length commits
      then head_loop h (Suc i) (if sha (commits ! i) = h then move i 0 commits else commits)
      else commits)"
  by pat_completeness auto
termination
  by (relation "measure (\<lambda>(h, i, commits). length commits - i)") (auto simp: length_move)

declare head_loop.simps [simp del]

text \<open>
  The inner loop of the second nest, for a fixed \<open>j\<close>: \<open>commits[j].parents[0].sha\<close> is
  evaluated again at every iteration, on the array as it is then.
\<close>

function inner_loop :: "nat \<Rightarrow> nat \<Rightarrow> 'u PullsListCommitsResponseItem list
    \<Rightarrow> error + 'u PullsListCommitsResponseItem list" where
  "inner_loop j i commits =
     (if i < length commits
      then (case parents (commits ! j) of
              [] \<Rightarrow> Inl TypeError
            | p # _ \<Rightarrow>
                inner_loop j (Suc i)
                  (if sha (commits ! i) = p then move i (Suc j) commits else commits))
      else Inr commits)"
  by pat_completeness auto
termination
  by (relation "measure (\<lambda>(j, i, commits). length commits - i)") (auto simp: length_move)

declare inner_loop.simps [simp del]

lemma inner_loop_mset: "inner_loop j i cs = Inr out \<Longrightarrow> mset out = mset cs"
proof (induction j i cs rule: inner_loop.induct)
  case (1 j i commits)
  show ?case
  proof (cases "i < length commits")
    case False
    with "1.prems" show ?thesis by (simp add: inner_loop.simps [of j i commits])
  next
    case True
    show ?thesis
    proof (cases "parents (commits ! j)")
      case Nil
      with True "1.prems" show ?thesis by (simp add: inner_loop.simps [of j i commits])
    next
      case (Cons p ps)
      let ?next = "if sha (commits ! i) = p then move i (Suc j) commits else commits"
      from True Cons "1.prems" have "inner_loop j (Suc i) ?next = Inr out"
        by (simp add: inner_loop.simps [of j i commits])
      with "1.IH" [OF True Cons] have "mset out = mset ?next" .
      with True show ?thesis by (simp add: mset_move)
    qed
  qed
qed

lemma inner_loop_length: "inner_loop j i cs = Inr out \<Longrightarrow> length out = length cs"
  by (drule inner_loop_mset) (rule mset_eq_length)

text \<open>The outer loop \<open>for (var j = 0; j < commits.length; j++)\<close>.\<close>

function outer_loop :: "nat \<Rightarrow> 'u PullsListCommitsResponseItem list
    \<Rightarrow> error + 'u PullsListCommitsResponseItem list" where
  "outer_loop j commits =
     (if j < length commits
      then (case inner_loop j 0 commits of
              Inl e \<Rightarrow> Inl e
            | Inr commits' \<Rightarrow> outer_loop (Suc j) commits')
      else Inr commits)"
  by pat_completeness auto
termination
  by (relation "measure (\<lambda>(j, commits). length commits - j)")
     (auto dest: inner_loop_length)

declare outer_loop.simps [simp del]

text \<open>
  The whole reordering: both loops, then \<open>commits.reverse()\<close>. The inputs are the array
  returned by \<open>octokit.paginate\<close> and \<open>pr.data.head.sha\<close>.
\<close>

definition linearize :: "Sha \<Rightarrow> 'u PullsListCommitsResponseItem list
    \<Rightarrow> error + 'u PullsListCommitsResponseItem list" where
  "linearize h commits =
     (case outer_loop 0 (head_loop h 0 commits) of
        Inl e \<Rightarrow> Inl e
      | Inr commits' \<Rightarrow> Inr (rev commits'))"

definition getCommitsDetails :: "'u PullsListCommitsResponseItem \<Rightarrow> 'u CommitDetails" where
  "getCommitsDetails c =
     \<lparr>author = commit_author c, committer = commit_committer c, message = commit_message c,
      details_sha = sha c, tree = commit_tree c\<rparr>"

definition fetchCommitsDetails :: "Sha \<Rightarrow> 'u PullsListCommitsResponseItem list
    \<Rightarrow> error + 'u CommitDetails list" where
  "fetchCommitsDetails h commits =
     (case linearize h commits of
        Inl e \<Rightarrow> Inl e
      | Inr commits' \<Rightarrow> Inr (map getCommitsDetails commits'))"

definition fetchCommits :: "Sha \<Rightarrow> 'u PullsListCommitsResponseItem list \<Rightarrow> error + Sha list" where
  "fetchCommits h commits =
     (case fetchCommitsDetails h commits of
        Inl e \<Rightarrow> Inl e
      | Inr details \<Rightarrow> Inr (map details_sha details))"

section \<open>Chains of commits\<close>

text \<open>
  \<open>parents[0].sha\<close>, the only parent the loops read; \<open>None\<close> where \<open>parents[0]\<close> is
  \<open>undefined\<close>.
\<close>

definition first_parent :: "'u PullsListCommitsResponseItem \<Rightarrow> Sha option" where
  "first_parent c = (case parents c of [] \<Rightarrow> None | p # _ \<Rightarrow> Some p)"

text \<open>
  A sequence ordered oldest to newest in which every element's first parent is the element
  before it.
\<close>

fun linked :: "'u PullsListCommitsResponseItem list \<Rightarrow> bool" where
  "linked (c # d # cs) = (first_parent d = Some (sha c) \<and> linked (d # cs))"
| "linked _ = True"

text \<open>
  A connected linear chain: not empty, unique SHAs, linked, and the first parent of the root
  (when it has one) is the SHA of no record of the chain.
\<close>

definition linear_chain :: "'u PullsListCommitsResponseItem list \<Rightarrow> bool" where
  "linear_chain chain =
     (chain \<noteq> [] \<and> distinct (map sha chain) \<and> linked chain \<and>
      (case first_parent (hd chain) of None \<Rightarrow> True | Some p \<Rightarrow> p \<notin> set (map sha chain)))"

text \<open>
  The walk the specification describes (its section 4.1, steps 1 and 2), written from the
  specification's words and used only to say which records are reachable from the head SHA
  by following first-parent links: find the record with the given SHA among the records not
  yet placed, place it, and go on from its first parent. The first argument bounds the
  number of steps; every step places one record, so the number of records is enough.
\<close>

fun spec_walk :: "nat \<Rightarrow> Sha \<Rightarrow> 'u PullsListCommitsResponseItem list
    \<Rightarrow> 'u PullsListCommitsResponseItem list" where
  "spec_walk 0 s cs = []"
| "spec_walk (Suc n) s cs =
     (case find (\<lambda>c. sha c = s) cs of
        None \<Rightarrow> []
      | Some c \<Rightarrow>
          c # (case first_parent c of
                 None \<Rightarrow> []
               | Some p \<Rightarrow> spec_walk n p (remove1 c cs)))"

definition spec_reachable :: "Sha \<Rightarrow> 'u PullsListCommitsResponseItem list
    \<Rightarrow> 'u PullsListCommitsResponseItem list" where
  "spec_reachable h cs = spec_walk (length cs) h cs"

text \<open>A commit record with the given SHA and parents, for evaluating the loops.\<close>

definition example_commit :: "Sha \<Rightarrow> Sha list \<Rightarrow> unit PullsListCommitsResponseItem" where
  "example_commit s ps =
     \<lparr>sha = s, parents = ps, commit_author = (), commit_committer = (),
      commit_message = [], commit_tree = []\<rparr>"

section \<open>The ref operations\<close>

text \<open>
  \<open>src/git.ts\<close> and \<open>src/git.js\<close> hold the same ref operations under two sets of names
  (\<open>withTemporaryRef\<close> and \<open>withTemporaryReference\<close>, \<open>octokit.git.createRef\<close> and
  \<open>octokit.gitdata.createReference\<close>, and so on); the model keeps the names of
  \<open>src/git.ts\<close>.

  An \<open>async\<close> function is a function of the state of the world (the remote repository and
  whatever else the caller's action touches) that returns the new state and either the
  value the promise is fulfilled with (\<open>Inr\<close>) or the error it is rejected with (\<open>Inl\<close>).
  An \<open>await\<close> of a rejected promise throws that error.
\<close>

type_synonym ('e, 's, 'a) promise = "'s \<Rightarrow> ('e + 'a) \<times> 's"

text \<open>
  The \<open>octokit\<close> client is not part of the repository; the two methods the temporary-ref
  operations call are parameters. The arguments are the fields \<open>owner\<close>, \<open>ref\<close>, \<open>repo\<close>
  and \<open>sha\<close> of the object passed.
\<close>

record ('e, 's) Octokit =
  git_createRef :: "RepoOwner \<Rightarrow> Ref \<Rightarrow> RepoName \<Rightarrow> Sha \<Rightarrow> ('e, 's, unit) promise"
  git_deleteRef :: "RepoOwner \<Rightarrow> Ref \<Rightarrow> RepoName \<Rightarrow> ('e, 's, unit) promise"

text \<open>
  \<open>generateUniqueRef\<close> is \<open>`${ref}-${generateUuid()}`\<close>. The first argument is the string
  that the call of \<open>generateUuid\<close> (the package \<open>uuid/v4\<close>) returns.
\<close>

definition generateUniqueRef :: "string \<Rightarrow> Ref \<Rightarrow> Ref" where
  "generateUniqueRef uuid ref = ref @ ''-'' @ uuid"

definition getHeadRef :: "Ref \<Rightarrow> Ref" where
  "getHeadRef ref = ''heads/'' @ ref"

definition getFullyQualifiedRef :: "Ref \<Rightarrow> Ref" where
  "getFullyQualifiedRef ref = ''refs/'' @ getHeadRef ref"

definition deleteRef :: "('e, 's) Octokit \<Rightarrow> RepoOwner \<Rightarrow> Ref \<Rightarrow> RepoName \<Rightarrow> ('e, 's, unit) promise" where
  "deleteRef octokit owner ref repo = git_deleteRef octokit owner (getHeadRef ref) repo"

definition createRef :: "('e, 's) Octokit \<Rightarrow> RepoOwner \<Rightarrow> Ref \<Rightarrow> RepoName \<Rightarrow> Sha
    \<Rightarrow> ('e, 's, unit) promise" where
  "createRef octokit owner ref repo commit_sha =
     git_createRef octokit owner (getFullyQualifiedRef ref) repo commit_sha"

record ('e, 's) TemporaryRef =
  deleteTemporaryRef :: "('e, 's, unit) promise"
  temporaryRef :: Ref

definition createTemporaryRef :: "('e, 's) Octokit \<Rightarrow> string \<Rightarrow> RepoOwner \<Rightarrow> Ref \<Rightarrow> RepoName
    \<Rightarrow> Sha \<Rightarrow> ('e, 's, ('e, 's) TemporaryRef) promise" where
  "createTemporaryRef octokit uuid owner ref repo commit_sha s =
     (let name = generateUniqueRef uuid ref in
      case createRef octokit owner name repo commit_sha s of
        (Inl e, s1) \<Rightarrow> (Inl e, s1)
      | (Inr _, s1) \<Rightarrow>
          (Inr \<lparr>deleteTemporaryRef = deleteRef octokit owner name repo, temporaryRef = name\<rparr>,
           s1))"

text \<open>
  \<open>try { return await body } finally { await finalizer }\<close>: the finalizer runs once after
  the body, whether the body returned or threw. When the finalizer throws, its error is the
  completion of the whole statement; otherwise the completion of the body is.
\<close>

definition try_finally :: "('e, 's, 'a) promise \<Rightarrow> ('e, 's, unit) promise \<Rightarrow> ('e, 's, 'a) promise" where
  "try_finally body finalizer s =
     (case body s of
        (r, s1) \<Rightarrow>
          (case finalizer s1 of
             (Inl e, s2) \<Rightarrow> (Inl e, s2)
           | (Inr _, s2) \<Rightarrow> (r, s2)))"

definition withTemporaryRef :: "(Ref \<Rightarrow> ('e, 's, 'a) promise) \<Rightarrow> ('e, 's) Octokit \<Rightarrow> string
    \<Rightarrow> RepoOwner \<Rightarrow> Ref \<Rightarrow> RepoName \<Rightarrow> Sha \<Rightarrow> ('e, 's, 'a) promise" where
  "withTemporaryRef action octokit uuid owner ref repo commit_sha s =
     (case createTemporaryRef octokit uuid owner ref repo commit_sha s of
        (Inl e, s1) \<Rightarrow> (Inl e, s1)
      | (Inr t, s1) \<Rightarrow> try_finally (action (temporaryRef t)) (deleteTemporaryRef t) s1)"

text \<open>
  To observe which remote calls are made and in which order, an \<open>octokit\<close> client is wrapped
  into one that appends every call it receives to a log and answers as the wrapped client.
\<close>

datatype call = CreateRef RepoOwner Ref RepoName Sha | DeleteRef RepoOwner Ref RepoName

definition recording :: "('e, 's) Octokit \<Rightarrow> ('e, call list \<times> 's) Octokit" where
  "recording octokit =
     \<lparr>git_createRef = (\<lambda>owner ref repo commit_sha (calls, s).
        case git_createRef octokit owner ref repo commit_sha s of
          (r, s') \<Rightarrow> (r, (calls @ [CreateRef owner ref repo commit_sha], s'))),
      git_deleteRef = (\<lambda>owner ref repo (calls, s).
        case git_deleteRef octokit owner ref repo s of
          (r, s') \<Rightarrow> (r, (calls @ [DeleteRef owner ref repo], s')))\<rparr>"

text \<open>
  A client whose \<open>createRef\<close> and \<open>deleteRef\<close> always give the two given answers, for
  evaluating the operations.
\<close>

definition example_octokit :: "string + unit \<Rightarrow> string + unit \<Rightarrow> (string, unit) Octokit" where
  "example_octokit created deleted =
     \<lparr>git_createRef = (\<lambda>owner ref repo commit_sha s. (created, s)),
      git_deleteRef = (\<lambda>owner ref repo s. (deleted, s))\<rparr>"

section \<open>Properties of the loops\<close>


lemma head_loop_mset: "mset (head_loop h i cs) = mset cs"
proof (induction h i cs rule: head_loop.induct)
  case (1 h i commits)
  show ?case
  proof (cases "i < length commits")
    case False
    then show ?thesis by (simp add: head_loop.simps [of h i commits])
  next
    case True
    with "1.IH" show ?thesis
      by (simp add: head_loop.simps [of h i commits] mset_move)
  qed
qed

lemma head_loop_no_match:
  "(\<And>k. i \<le> k \<Longrightarrow> k < length cs \<Longrightarrow> sha (cs ! k) \<noteq> h) \<Longrightarrow> head_loop h i cs = cs"
proof (induction h i cs rule: head_loop.induct)
  case (1 h i commits)
  show ?case
  proof (cases "i < length commits")
    case False
    then show ?thesis by (simp add: head_loop.simps [of h i commits])
  next
    case True
    with "1.prems" [of i] have ne: "sha (commits ! i) \<noteq> h" by simp
    have "head_loop h (Suc i) commits = commits"
      using "1.IH" [OF True] ne "1.prems" by simp
    with True ne show ?thesis by (simp add: head_loop.simps [of h i commits])
  qed
qed

lemma move_to_front: "move (length A) 0 (A @ c # B) = c # A @ B"
  by (simp add: move_def splice_remove_def splice_insert_def)

lemma move_behind:
  "length P = k \<Longrightarrow> move (length P + length A) k (P @ A @ c # B) = P @ c # A @ B"
  by (simp add: move_def splice_remove_def splice_insert_def nth_append)

lemma head_loop_unique:
  assumes "sha c = h" and "h \<notin> sha ` set A" and "h \<notin> sha ` set B" and "i \<le> length A"
  shows "head_loop h i (A @ c # B) = c # A @ B"
  using assms(4)
proof (induction "length A - i" arbitrary: i)
  case 0
  then have i: "i = length A" by simp
  have "head_loop h (Suc (length A)) (c # A @ B) = c # A @ B"
  proof (rule head_loop_no_match)
    fix k assume "Suc (length A) \<le> k" "k < length (c # A @ B)"
    then have "(c # A @ B) ! k = B ! (k - Suc (length A))" "k - Suc (length A) < length B"
      by (auto simp: nth_append nth_Cons')
    with assms(3) show "sha ((c # A @ B) ! k) \<noteq> h"
      by (metis image_eqI nth_mem)
  qed
  then show ?case
    using assms(1) by (simp add: head_loop.simps [of h "length A"] i move_to_front)
next
  case (Suc n)
  then have lt: "i < length A" by simp
  with assms(2) have "sha (A ! i) \<noteq> h" by (metis image_eqI nth_mem)
  moreover have "head_loop h (Suc i) (A @ c # B) = c # A @ B"
    using Suc lt by simp
  ultimately show ?case
    using lt by (simp add: head_loop.simps [of h i] nth_append)
qed


lemma inner_loop_no_match:
  assumes "parents (cs ! j) = p # ps"
    and "\<And>k. i \<le> k \<Longrightarrow> k < length cs \<Longrightarrow> sha (cs ! k) \<noteq> p"
  shows "inner_loop j i cs = Inr cs"
  using assms(2)
proof (induction "length cs - i" arbitrary: i)
  case 0
  then show ?case by (simp add: inner_loop.simps [of j i cs])
next
  case (Suc n)
  then have lt: "i < length cs" by simp
  with Suc.prems [of i] have ne: "sha (cs ! i) \<noteq> p" by simp
  have "inner_loop j (Suc i) cs = Inr cs"
    using Suc.hyps(1) [of "Suc i"] Suc.hyps(2) Suc.prems by simp
  with lt ne assms(1) show ?case by (simp add: inner_loop.simps [of j i cs])
qed

lemma inner_loop_unique:
  assumes "length P = Suc j" and "parents (last P) = p # ps" and "sha c = p"
    and "p \<notin> sha ` set P" and "p \<notin> sha ` set A" and "p \<notin> sha ` set B"
    and "i \<le> length P + length A"
  shows "inner_loop j i (P @ A @ c # B) = Inr (P @ c # A @ B)"
  using assms(7)
proof (induction "length P + length A - i" arbitrary: i)
  case 0
  then have i: "i = length P + length A" by simp
  from assms(1) have Pj: "\<And>xs. (P @ xs) ! j = last P"
    by (metis Zero_not_Suc diff_Suc_1 last_conv_nth length_0_conv lessI nth_append)
  have "inner_loop j (Suc (length P + length A)) (P @ c # A @ B) = Inr (P @ c # A @ B)"
  proof (rule inner_loop_no_match)
    show "parents ((P @ c # A @ B) ! j) = p # ps"
      using Pj assms(2) by simp
  next
    fix k assume "Suc (length P + length A) \<le> k" "k < length (P @ c # A @ B)"
    then have "(P @ c # A @ B) ! k = B ! (k - Suc (length P + length A))"
      "k - Suc (length P + length A) < length B"
      by (auto simp: nth_append nth_Cons')
    with assms(6) show "sha ((P @ c # A @ B) ! k) \<noteq> p"
      by (metis image_eqI nth_mem)
  qed
  moreover have "(P @ A @ c # B) ! (length P + length A) = c"
    by (simp add: nth_append)
  moreover have "move (length P + length A) (Suc j) (P @ A @ c # B) = P @ c # A @ B"
    using assms(1) by (rule move_behind)
  ultimately show ?case
    using assms(2,3) Pj
    by (simp add: inner_loop.simps [of j "length P + length A" "P @ A @ c # B"] i)
next
  case (Suc n)
  then have lt: "i < length P + length A" by simp
  from assms(1) have Pj: "(P @ A @ c # B) ! j = last P"
    by (metis Zero_not_Suc diff_Suc_1 last_conv_nth length_0_conv lessI nth_append)
  have "(P @ A @ c # B) ! i \<in> set P \<union> set A"
    using lt by (auto simp: nth_append)
  with assms(4,5) have ne: "sha ((P @ A @ c # B) ! i) \<noteq> p" by auto
  have "inner_loop j (Suc i) (P @ A @ c # B) = Inr (P @ c # A @ B)"
    using Suc lt by simp
  with lt ne Pj assms(2) show ?case
    by (simp add: inner_loop.simps [of j i "P @ A @ c # B"])
qed

lemma linked_tl: "linked (x # xs) \<Longrightarrow> linked xs"
  by (cases xs) auto

lemma linked_mid: "linked (xs @ c # d # ys) \<Longrightarrow> first_parent d = Some (sha c)"
proof (induction xs)
  case Nil
  then show ?case by simp
next
  case (Cons x xs)
  from Cons.prems have "linked (xs @ c # d # ys)"
    using linked_tl by fastforce
  then show ?case by (rule Cons.IH)
qed

lemma first_parent_Some: "first_parent c = Some p \<Longrightarrow> \<exists>ps. parents c = p # ps"
  by (auto simp: first_parent_def split: list.splits)

lemma outer_loop_done: "length cs \<le> j \<Longrightarrow> outer_loop j cs = Inr cs"
  by (simp add: outer_loop.simps [of j cs])

lemma outer_loop_step:
  "j < length cs \<Longrightarrow> inner_loop j 0 cs = Inr cs' \<Longrightarrow> outer_loop j cs = outer_loop (Suc j) cs'"
  by (simp add: outer_loop.simps [of j cs])

lemma outer_loop_chain:
  assumes "P \<noteq> []" and "distinct (map sha (P @ S))" and "linked (rev (P @ S))"
    and "mset R = mset S" and "parents (last (P @ S)) = p # ps"
    and "p \<notin> sha ` set (P @ S)"
  shows "outer_loop (length P - 1) (P @ R) = Inr (P @ S)"
  using assms
proof (induction S arbitrary: P R)
  case Nil
  then have R: "R = []" by simp
  define j where "j = length P - 1"
  from Nil.prems(1) have j: "j < length P" "P ! j = last P" "Suc j = length P"
    by (simp_all add: last_conv_nth j_def)
  have "inner_loop j 0 P = Inr P"
  proof (rule inner_loop_no_match)
    show "parents (P ! j) = p # ps"
      using j Nil.prems(5) by simp
  next
    fix k assume "k < length P"
    with Nil.prems(6) show "sha (P ! k) \<noteq> p"
      by (metis append_Nil2 image_eqI nth_mem)
  qed
  moreover have "outer_loop (Suc j) P = Inr P"
    using j by (intro outer_loop_done) simp
  ultimately have "outer_loop j P = Inr P"
    using j(1) by (simp add: outer_loop_step)
  then show ?case
    by (simp add: R j_def)
next
  case (Cons s S)
  define j where "j = length P - 1"
  from Cons.prems(1) have j: "length P = Suc j" by (simp add: j_def)
  from Cons.prems(4) have "s \<in> set R"
    by (metis list.set_intros(1) mset_eq_setD)
  then obtain A B where R: "R = A @ s # B"
    by (auto dest: split_list)
  with Cons.prems(4) have AB: "mset (A @ B) = mset S" by simp
  then have setAB: "set A \<union> set B = set S"
    by (metis mset_eq_setD set_append)
  from Cons.prems(1) obtain P' where P: "P = P' @ [last P]"
    by (metis append_butlast_last_id)
  have "rev (P @ s # S) = rev S @ s # last P # rev P'"
    by (subst P) simp
  with Cons.prems(3) have "linked (rev S @ s # last P # rev P')"
    by (simp only:)
  then have "first_parent (last P) = Some (sha s)"
    by (rule linked_mid)
  then obtain qs where par: "parents (last P) = sha s # qs"
    by (auto dest: first_parent_Some)
  from Cons.prems(2) have nP: "sha s \<notin> sha ` set P" and nS: "sha s \<notin> sha ` set S"
    by auto
  from nS setAB have nA: "sha s \<notin> sha ` set A" and nB: "sha s \<notin> sha ` set B"
    by auto
  have inner: "inner_loop j 0 (P @ A @ s # B) = Inr (P @ s # A @ B)"
    using j par refl nP nA nB by (rule inner_loop_unique) simp
  have "outer_loop (length (P @ [s]) - 1) ((P @ [s]) @ (A @ B)) = Inr ((P @ [s]) @ S)"
  proof (rule Cons.IH)
    show "P @ [s] \<noteq> []" by simp
    show "distinct (map sha ((P @ [s]) @ S))" using Cons.prems(2) by simp
    show "linked (rev ((P @ [s]) @ S))" using Cons.prems(3) by simp
    show "mset (A @ B) = mset S" by (rule AB)
    show "parents (last ((P @ [s]) @ S)) = p # ps" using Cons.prems(5) by simp
    show "p \<notin> sha ` set ((P @ [s]) @ S)" using Cons.prems(6) by simp
  qed
  then have "outer_loop (Suc j) (P @ s # A @ B) = Inr (P @ s # S)"
    using j by simp
  with inner have "outer_loop j (P @ A @ s # B) = Inr (P @ s # S)"
    using j by (simp add: outer_loop_step)
  then show ?case
    by (simp add: R j_def)
qed

lemma linearize_chain:
  assumes "linear_chain chain" and "parents (hd chain) \<noteq> []"
    and "mset commits = mset chain" and "h = sha (last chain)"
  shows "linearize h commits = Inr chain"
proof -
  from assms(1) have ne: "chain \<noteq> []" and dist: "distinct (map sha chain)"
    and link: "linked chain"
    by (simp_all add: linear_chain_def)
  from assms(1,2) obtain p ps where root: "parents (hd chain) = p # ps"
    and out: "p \<notin> sha ` set chain"
    by (auto simp: linear_chain_def first_parent_def split: list.splits)
  define S where "S = tl (rev chain)"
  from ne have hs: "rev chain = last chain # S"
    by (metis S_def hd_rev list.collapse rev_is_Nil_conv)
  then have chain: "chain = rev (last chain # S)"
    by (metis rev_rev_ident)
  have "last chain \<in> set commits"
    using ne assms(3) by (metis last_in_set mset_eq_setD)
  then obtain A B where cs: "commits = A @ last chain # B"
    by (auto dest: split_list)
  have "mset commits = add_mset (last chain) (mset S)"
    using assms(3) hs by (metis mset.simps(2) mset_rev)
  with cs have AB: "mset (A @ B) = mset S" by simp
  then have setAB: "set A \<union> set B = set S"
    by (metis mset_eq_setD set_append)
  have dS: "distinct (map sha (last chain # S))"
    using dist hs by (metis distinct_rev rev_map)
  then have "sha (last chain) \<notin> sha ` set S" by simp
  with setAB have nA: "h \<notin> sha ` set A" and nB: "h \<notin> sha ` set B"
    using assms(4) by auto
  from assms(4) have "sha (last chain) = h" by simp
  then have front: "head_loop h 0 commits = last chain # A @ B"
    unfolding cs using nA nB by (rule head_loop_unique) simp
  have "outer_loop (length [last chain] - 1) ([last chain] @ (A @ B)) = Inr ([last chain] @ S)"
  proof (rule outer_loop_chain)
    show "[last chain] \<noteq> []" by simp
    show "distinct (map sha ([last chain] @ S))" using dS by simp
    show "linked (rev ([last chain] @ S))" using link chain by simp
    show "mset (A @ B) = mset S" by (rule AB)
    show "parents (last ([last chain] @ S)) = p # ps"
      using root hs ne by (metis append_Cons append_Nil hd_rev rev_rev_ident)
    show "p \<notin> sha ` set ([last chain] @ S)"
      using out hs by (metis append_Cons append_Nil set_rev)
  qed
  then have "outer_loop 0 (head_loop h 0 commits) = Inr (last chain # S)"
    using front by simp
  then show ?thesis
    using chain by (simp add: linearize_def)
qed

lemma outer_loop_mset: "outer_loop j cs = Inr out \<Longrightarrow> mset out = mset cs"
proof (induction j cs rule: outer_loop.induct)
  case (1 j commits)
  show ?case
  proof (cases "j < length commits")
    case False
    with "1.prems" show ?thesis by (simp add: outer_loop_done)
  next
    case True
    show ?thesis
    proof (cases "inner_loop j 0 commits")
      case (Inl e)
      with True "1.prems" show ?thesis by (simp add: outer_loop.simps [of j commits])
    next
      case (Inr commits')
      with True "1.prems" have "outer_loop (Suc j) commits' = Inr out"
        by (simp add: outer_loop_step)
      with "1.IH" [OF True Inr] have "mset out = mset commits'" .
      with Inr show ?thesis by (simp add: inner_loop_mset)
    qed
  qed
qed

lemma linearize_mset: "linearize h cs = Inr out \<Longrightarrow> mset out = mset cs"
  by (auto simp: linearize_def head_loop_mset split: sum.splits dest!: outer_loop_mset)

lemma set_move: "i < length cs \<Longrightarrow> set (move i k cs) = set cs"
  by (metis mset_move mset_eq_setD)

lemma inner_loop_total:
  "j < length cs \<Longrightarrow> \<forall>c\<in>set cs. parents c \<noteq> [] \<Longrightarrow> \<exists>out. inner_loop j i cs = Inr out"
proof (induction j i cs rule: inner_loop.induct)
  case (1 j i commits)
  show ?case
  proof (cases "i < length commits")
    case False
    then show ?thesis by (simp add: inner_loop.simps [of j i commits])
  next
    case True
    from "1.prems" obtain p ps where par: "parents (commits ! j) = p # ps"
      by (metis list.exhaust nth_mem)
    let ?next = "if sha (commits ! i) = p then move i (Suc j) commits else commits"
    have "\<exists>out. inner_loop j (Suc i) ?next = Inr out"
      using "1.IH" [OF True par] "1.prems" True by (simp add: length_move set_move)
    with True par show ?thesis by (simp add: inner_loop.simps [of j i commits])
  qed
qed

lemma outer_loop_total:
  "\<forall>c\<in>set cs. parents c \<noteq> [] \<Longrightarrow> \<exists>out. outer_loop j cs = Inr out"
proof (induction j cs rule: outer_loop.induct)
  case (1 j commits)
  show ?case
  proof (cases "j < length commits")
    case False
    then show ?thesis by (simp add: outer_loop_done)
  next
    case True
    with "1.prems" obtain commits' where inner: "inner_loop j 0 commits = Inr commits'"
      using inner_loop_total by blast
    then have "set commits' = set commits"
      by (metis inner_loop_mset mset_eq_setD)
    with "1.IH" [OF True inner] "1.prems" have "\<exists>out. outer_loop (Suc j) commits' = Inr out"
      by simp
    with True inner show ?thesis by (simp add: outer_loop_step)
  qed
qed

lemma linearize_total:
  assumes "\<forall>c\<in>set cs. parents c \<noteq> []"
  shows "\<exists>out. linearize h cs = Inr out"
proof -
  have "set (head_loop h 0 cs) = set cs"
    by (metis head_loop_mset mset_eq_setD)
  with assms obtain out where "outer_loop 0 (head_loop h 0 cs) = Inr out"
    using outer_loop_total by metis
  then show ?thesis by (simp add: linearize_def)
qed

lemma move_ahead:
  "length A = i \<Longrightarrow> length B = j - i \<Longrightarrow> i \<le> j \<Longrightarrow>
   move i (Suc j) (A @ c # B @ d # D) = A @ B @ d # c # D"
  by (simp add: move_def splice_remove_def splice_insert_def nth_append)

lemma split_at_two:
  assumes "i \<le> j" and "Suc j < length cs"
  obtains A B D where "cs = A @ cs ! i # B @ cs ! Suc j # D" and "length A = i"
    and "length B = j - i"
proof
  have i: "i < length cs" using assms by simp
  have "cs = take i cs @ cs ! i # drop (Suc i) cs"
    using i by (rule id_take_nth_drop)
  moreover have "drop (Suc i) cs
      = take (j - i) (drop (Suc i) cs) @ drop (Suc i) cs ! (j - i) # drop (Suc (j - i)) (drop (Suc i) cs)"
    using assms by (intro id_take_nth_drop) simp
  moreover have "drop (Suc i) cs ! (j - i) = cs ! Suc j"
    using assms by simp
  ultimately show "cs = take i cs @ cs ! i # take (j - i) (drop (Suc i) cs) @ cs ! Suc j
      # drop (Suc (j - i)) (drop (Suc i) cs)"
    by metis
  show "length (take i cs) = i" using i by simp
  show "length (take (j - i) (drop (Suc i) cs)) = j - i" using assms by simp
qed

lemma split_behind:
  assumes "Suc j \<le> i" and "i < length cs"
  obtains P A B where "cs = P @ A @ cs ! i # B" and "length P = Suc j"
    and "length P + length A = i"
proof
  have "cs = take i cs @ cs ! i # drop (Suc i) cs"
    using assms(2) by (rule id_take_nth_drop)
  moreover have "take i cs = take (Suc j) (take i cs) @ drop (Suc j) (take i cs)"
    by (simp only: append_take_drop_id)
  ultimately show "cs = take (Suc j) (take i cs) @ drop (Suc j) (take i cs) @ cs ! i # drop (Suc i) cs"
    by (metis append.assoc)
  show "length (take (Suc j) (take i cs)) = Suc j" using assms by simp
  show "length (take (Suc j) (take i cs)) + length (drop (Suc j) (take i cs)) = i"
    using assms by simp
qed


lemma inner_loop_keeps_orphan:
  assumes "j < length cs"
    and "(\<exists>x\<in>set (drop (Suc j) cs). parents x = []) \<or> (parents (cs ! j) = [] \<and> i < length cs)"
  shows "inner_loop j i cs = Inl TypeError \<or>
         (\<exists>cs'. inner_loop j i cs = Inr cs' \<and> (\<exists>x\<in>set (drop (Suc j) cs'). parents x = []))"
  using assms
proof (induction j i cs rule: inner_loop.induct)
  case (1 j i commits)
  show ?case
  proof (cases "i < length commits")
    case False
    with "1.prems" show ?thesis by (simp add: inner_loop.simps [of j i commits])
  next
    case True
    show ?thesis
    proof (cases "parents (commits ! j)")
      case Nil
      with True show ?thesis by (simp add: inner_loop.simps [of j i commits])
    next
      case (Cons p ps)
      with "1.prems"(2) obtain x where x: "x \<in> set (drop (Suc j) commits)" "parents x = []"
        by auto
      let ?next = "if sha (commits ! i) = p then move i (Suc j) commits else commits"
      have len: "j < length ?next"
        using "1.prems"(1) True by (simp add: length_move)
      have inv: "(\<exists>x\<in>set (drop (Suc j) ?next). parents x = [])
          \<or> (parents (?next ! j) = [] \<and> Suc i < length ?next)"
      proof (cases "sha (commits ! i) = p")
        case False
        with x show ?thesis by auto
      next
        case match: True
        show ?thesis
        proof (cases "i \<le> j")
          case behind: False
          then have "Suc j \<le> i" by simp
          then obtain P A B where sp: "commits = P @ A @ commits ! i # B" "length P = Suc j"
            "length P + length A = i"
            using True by (rule split_behind)
          have "move (length P + length A) (Suc j) (P @ A @ commits ! i # B)
              = P @ commits ! i # A @ B"
            using sp(2) by (rule move_behind)
          with sp have mv: "move i (Suc j) commits = P @ commits ! i # A @ B"
            by simp
          have "set (drop (Suc j) (P @ commits ! i # A @ B)) = set (drop (Suc j) (P @ A @ commits ! i # B))"
            using sp(2) by auto
          with sp(1) mv have "set (drop (Suc j) (move i (Suc j) commits)) = set (drop (Suc j) commits)"
            by simp
          with match x show ?thesis by auto
        next
          case ahead: True
          from x(1) have sj: "Suc j < length commits"
            by (metis drop_all empty_iff empty_set not_le_imp_less)
          with ahead obtain A B D where sp: "commits = A @ commits ! i # B @ commits ! Suc j # D"
            "length A = i" "length B = j - i"
            by (rule split_at_two)
          have "move i (Suc j) (A @ commits ! i # B @ commits ! Suc j # D)
              = A @ B @ commits ! Suc j # commits ! i # D"
            using sp(2,3) ahead by (rule move_ahead)
          with sp(1) have mv: "move i (Suc j) commits = A @ B @ commits ! Suc j # commits ! i # D"
            by simp
          have lenAB: "length (A @ B) = j"
            using sp(2,3) ahead by simp
          have at_j: "move i (Suc j) commits ! j = commits ! Suc j"
            unfolding mv using lenAB by (metis append.assoc nth_append_length)
          have "length (A @ commits ! i # B) = Suc j"
            using sp(2,3) ahead by simp
          then have "drop (Suc j) ((A @ commits ! i # B) @ commits ! Suc j # D) = commits ! Suc j # D"
            by (metis append_eq_conv_conj)
          then have "drop (Suc j) (A @ commits ! i # B @ commits ! Suc j # D) = commits ! Suc j # D"
            by simp
          with sp(1) have dr: "drop (Suc j) commits = commits ! Suc j # D"
            by simp
          have "length ((A @ B) @ [commits ! Suc j]) = Suc j"
            using lenAB by simp
          then have "drop (Suc j) (((A @ B) @ [commits ! Suc j]) @ commits ! i # D) = commits ! i # D"
            by (metis append_eq_conv_conj)
          then have "drop (Suc j) (A @ B @ commits ! Suc j # commits ! i # D) = commits ! i # D"
            by simp
          with mv have dr': "drop (Suc j) (move i (Suc j) commits) = commits ! i # D"
            by simp
          from x dr have "parents (commits ! Suc j) = [] \<or> (\<exists>x\<in>set D. parents x = [])"
            by auto
          then show ?thesis
          proof
            assume "parents (commits ! Suc j) = []"
            with at_j match ahead sj True show ?thesis
              by (simp add: length_move)
          next
            assume "\<exists>x\<in>set D. parents x = []"
            with dr' match show ?thesis by auto
          qed
        qed
      qed
      from "1.IH" [OF True Cons len inv] True Cons show ?thesis
        by (simp add: inner_loop.simps [of j i commits])
    qed
  qed
qed

lemma outer_loop_orphan:
  "\<exists>x\<in>set (drop j cs). parents x = [] \<Longrightarrow> outer_loop j cs = Inl TypeError"
proof (induction j cs rule: outer_loop.induct)
  case (1 j commits)
  from "1.prems" have j: "j < length commits"
    by (metis drop_all empty_iff empty_set not_le_imp_less)
  then have "drop j commits = commits ! j # drop (Suc j) commits"
    by (rule Cons_nth_drop_Suc [symmetric])
  with "1.prems" j have "(\<exists>x\<in>set (drop (Suc j) commits). parents x = [])
      \<or> (parents (commits ! j) = [] \<and> 0 < length commits)"
    by auto
  with j have "inner_loop j 0 commits = Inl TypeError \<or>
      (\<exists>cs'. inner_loop j 0 commits = Inr cs' \<and> (\<exists>x\<in>set (drop (Suc j) cs'). parents x = []))"
    by (rule inner_loop_keeps_orphan)
  then show ?case
  proof
    assume "inner_loop j 0 commits = Inl TypeError"
    with j show ?thesis by (simp add: outer_loop.simps [of j commits])
  next
    assume "\<exists>cs'. inner_loop j 0 commits = Inr cs' \<and> (\<exists>x\<in>set (drop (Suc j) cs'). parents x = [])"
    then obtain cs' where inner: "inner_loop j 0 commits = Inr cs'"
      and orphan: "\<exists>x\<in>set (drop (Suc j) cs'). parents x = []"
      by blast
    from "1.IH" [OF j inner orphan] j inner show ?thesis
      by (simp add: outer_loop_step)
  qed
qed

lemma linearize_orphan:
  assumes "\<exists>c\<in>set cs. parents c = []"
  shows "linearize h cs = Inl TypeError"
proof -
  have "set (head_loop h 0 cs) = set cs"
    by (metis head_loop_mset mset_eq_setD)
  with assms have "\<exists>x\<in>set (drop 0 (head_loop h 0 cs)). parents x = []"
    by simp
  then have "outer_loop 0 (head_loop h 0 cs) = Inl TypeError"
    by (rule outer_loop_orphan)
  then show ?thesis by (simp add: linearize_def)
qed

lemma linked_nth:
  assumes "linked xs" and "Suc i < length xs"
  shows "first_parent (xs ! Suc i) = Some (sha (xs ! i))"
proof -
  have "xs = take i xs @ xs ! i # drop (Suc i) xs"
    using assms(2) by (intro id_take_nth_drop) simp
  moreover have "drop (Suc i) xs = xs ! Suc i # drop (Suc (Suc i)) xs"
    using assms(2) by (rule Cons_nth_drop_Suc [symmetric])
  ultimately have "xs = take i xs @ xs ! i # xs ! Suc i # drop (Suc (Suc i)) xs"
    by simp
  with assms(1) have "linked (take i xs @ xs ! i # xs ! Suc i # drop (Suc (Suc i)) xs)"
    by simp
  then show ?thesis by (rule linked_mid)
qed

lemma head_loop_absent: "h \<notin> sha ` set cs \<Longrightarrow> head_loop h i cs = cs"
  by (rule head_loop_no_match) (metis image_eqI nth_mem)

lemma withTemporaryRef_created:
  assumes "createRef octokit owner (generateUniqueRef uuid ref) repo commit_sha s = (Inr u, s1)"
  shows "withTemporaryRef action octokit uuid owner ref repo commit_sha s
    = try_finally (action (generateUniqueRef uuid ref))
        (deleteRef octokit owner (generateUniqueRef uuid ref) repo) s1"
  using assms by (simp add: withTemporaryRef_def createTemporaryRef_def Let_def)

lemma generateUniqueRef_inject:
  assumes "generateUniqueRef uuid' ref' = generateUniqueRef uuid ref"
    and "length uuid' = length uuid"
  shows "ref' = ref \<and> uuid' = uuid"
proof -
  from assms(1) have eq: "ref' @ ''-'' @ uuid' = ref @ ''-'' @ uuid"
    by (simp add: generateUniqueRef_def)
  then have "length (ref' @ ''-'' @ uuid') = length (ref @ ''-'' @ uuid)"
    by simp
  with assms(2) have "length ref' = length ref" by simp
  with eq show ?thesis by simp
qed

section \<open>The claims about the reordering\<close>

text \<open>
  C10: whenever the reordering terminates normally, the returned sequence is a permutation
  of the input: every input record appears in it as often as in the input and no record is
  introduced, so the output is as long as the input, whatever the connectivity.
\<close>

theorem linearize_permutation:
  "linearize h commits = Inr out \<Longrightarrow> mset out = mset commits \<and> length out = length commits"
  by (auto dest: linearize_mset mset_eq_length)

theorem linearize_permutation_witness:
  "linearize ''C'' [example_commit ''C'' [''B''], example_commit ''B'' [''Z''],
       example_commit ''X'' [''Q'']]
     = Inr [example_commit ''X'' [''Q''], example_commit ''B'' [''Z''],
         example_commit ''C'' [''B'']]
   \<and> mset [example_commit ''X'' [''Q''], example_commit ''B'' [''Z''],
         example_commit ''C'' [''B'']]
     = mset [example_commit ''C'' [''B''], example_commit ''B'' [''Z''],
         example_commit ''X'' [''Q'']]
   \<and> length [example_commit ''X'' [''Q''], example_commit ''B'' [''Z''],
         example_commit ''C'' [''B'']] = (3::nat)"
proof -
  have run: "linearize ''C'' [example_commit ''C'' [''B''], example_commit ''B'' [''Z''],
       example_commit ''X'' [''Q'']]
     = Inr [example_commit ''X'' [''Q''], example_commit ''B'' [''Z''],
         example_commit ''C'' [''B'']]"
    by code_simp
  from linearize_permutation [OF run] run show ?thesis
    by simp
qed

text \<open>
  C1, as amended: for every input collection that is a shuffle of a connected linear chain
  of N commits (unique SHAs, every record but the root having the record before it as its
  first parent) in which the root too has a first parent, one that is the SHA of no record
  of the collection, and for the head SHA being that of the newest record, the reordering
  returns that chain: a sequence of length N, oldest to newest, in which every element's
  first parent is the SHA of the element before it and whose last element has the head SHA.
\<close>

theorem linearize_chain_ordering:
  assumes "linear_chain chain" and "parents (hd chain) \<noteq> []"
    and "mset commits = mset chain" and "h = sha (last chain)"
  shows "\<exists>out. linearize h commits = Inr out \<and> out = chain \<and> length out = length commits \<and>
           (\<forall>i. Suc i < length out \<longrightarrow> first_parent (out ! Suc i) = Some (sha (out ! i))) \<and>
           sha (out ! (length out - 1)) = h"
proof -
  from assms have run: "linearize h commits = Inr chain"
    by (rule linearize_chain)
  from assms(1) have ne: "chain \<noteq> []" and link: "linked chain"
    by (simp_all add: linear_chain_def)
  have "length chain = length commits"
    using assms(3) by (metis mset_eq_length)
  moreover have "\<forall>i. Suc i < length chain \<longrightarrow> first_parent (chain ! Suc i) = Some (sha (chain ! i))"
    using link by (simp add: linked_nth)
  moreover have "sha (chain ! (length chain - 1)) = h"
    using ne assms(4) by (simp add: last_conv_nth)
  ultimately show ?thesis
    using run by simp
qed

theorem linearize_chain_ordering_witness:
  "linear_chain [example_commit ''A'' [''Z''], example_commit ''B'' [''A''],
       example_commit ''C'' [''B'']]
   \<and> linearize ''C'' [example_commit ''C'' [''B''], example_commit ''A'' [''Z''],
       example_commit ''B'' [''A'']]
     = Inr [example_commit ''A'' [''Z''], example_commit ''B'' [''A''],
         example_commit ''C'' [''B'']]"
  using linearize_chain_ordering [of
      "[example_commit ''A'' [''Z''], example_commit ''B'' [''A''], example_commit ''C'' [''B'']]"
      "[example_commit ''C'' [''B''], example_commit ''A'' [''Z''], example_commit ''B'' [''A'']]"
      "''C''"]
  by (simp add: linear_chain_def first_parent_def example_commit_def)

text \<open>
  C1, as stated, fails on the specification's own example: the chain A, B, C whose root A
  has no parent, given as C, A, B with head SHA C. The records form a connected linear
  chain and the head SHA is that of the newest record, yet the outer loop reaches A and
  reads \<open>parents[0].sha\<close> of an empty \<open>parents\<close>: a TypeError, not a sequence.
\<close>

theorem chain_with_parentless_root_counterexample:
  "linear_chain [example_commit ''A'' [], example_commit ''B'' [''A''],
       example_commit ''C'' [''B'']]
   \<and> mset [example_commit ''C'' [''B''], example_commit ''A'' [], example_commit ''B'' [''A'']]
     = mset [example_commit ''A'' [], example_commit ''B'' [''A''], example_commit ''C'' [''B'']]
   \<and> sha (example_commit ''C'' [''B'']) = ''C''
   \<and> linearize ''C'' [example_commit ''C'' [''B''], example_commit ''A'' [],
       example_commit ''B'' [''A'']]
     = Inl TypeError"
proof -
  have "linearize ''C'' [example_commit ''C'' [''B''], example_commit ''A'' [],
       example_commit ''B'' [''A'']]
     = Inl TypeError"
    by code_simp
  then show ?thesis
    by (simp add: linear_chain_def first_parent_def example_commit_def)
qed

text \<open>
  C9, as amended: a record with an empty parents list is not treated as the root. The
  reordering raises a TypeError exactly when some record of the input has an empty parents
  list, wherever that record is and whatever the head SHA; it returns a sequence exactly
  when every record has at least one parent.
\<close>

theorem linearize_TypeError_iff:
  "(linearize h commits = Inl TypeError \<longleftrightarrow> (\<exists>c\<in>set commits. parents c = [])) \<and>
   ((\<exists>out. linearize h commits = Inr out) \<longleftrightarrow> (\<forall>c\<in>set commits. parents c \<noteq> []))"
proof (cases "\<exists>c\<in>set commits. parents c = []")
  case True
  then have "linearize h commits = Inl TypeError"
    by (rule linearize_orphan)
  with True show ?thesis by auto
next
  case False
  then have "\<exists>out. linearize h commits = Inr out"
    by (intro linearize_total) simp
  with False show ?thesis by auto
qed

theorem linearize_TypeError_iff_witness:
  "parents (example_commit ''A'' []) = []
   \<and> linearize ''D'' [example_commit ''D'' [''A''], example_commit ''A'' []] = Inl TypeError
   \<and> (\<exists>out. linearize ''D'' [example_commit ''D'' [''A''], example_commit ''A'' [''Z'']]
         = Inr out)"
  using linearize_TypeError_iff [of "''D''" "[example_commit ''D'' [''A''], example_commit ''A'' []]"]
    linearize_TypeError_iff [of "''D''"
      "[example_commit ''D'' [''A''], example_commit ''A'' [''Z'']]"]
  by (simp add: example_commit_def)

text \<open>
  C9, as stated, fails: with head SHA B and the records B (parent A) and A (no parent),
  the reordering does not complete; it raises a TypeError.
\<close>

theorem empty_parents_counterexample:
  "parents (example_commit ''A'' []) = []
   \<and> linearize ''B'' [example_commit ''B'' [''A''], example_commit ''A'' []] = Inl TypeError"
proof -
  have "linearize ''B'' [example_commit ''B'' [''A''], example_commit ''A'' []] = Inl TypeError"
    by code_simp
  then show ?thesis
    by (simp add: example_commit_def)
qed

text \<open>
  C3, as amended: when no record's SHA equals the head SHA, no HeadNotFoundError is raised
  (the module has no such error). The first loop leaves the collection as it is, the
  reordering goes on from the first record of the input, and it returns a sequence, a
  permutation of the input, whenever every record has at least one parent.
\<close>

theorem linearize_head_absent:
  assumes "h \<notin> sha ` set commits"
  shows "head_loop h 0 commits = commits \<and>
         linearize h commits = (case outer_loop 0 commits of Inl e \<Rightarrow> Inl e | Inr cs \<Rightarrow> Inr (rev cs)) \<and>
         ((\<forall>c\<in>set commits. parents c \<noteq> []) \<longrightarrow>
            (\<exists>out. linearize h commits = Inr out \<and> mset out = mset commits))"
proof -
  from assms have "head_loop h 0 commits = commits"
    by (rule head_loop_absent)
  moreover have "(\<forall>c\<in>set commits. parents c \<noteq> []) \<longrightarrow>
      (\<exists>out. linearize h commits = Inr out \<and> mset out = mset commits)"
    using linearize_total linearize_mset by blast
  ultimately show ?thesis
    by (simp add: linearize_def)
qed

theorem linearize_head_absent_witness:
  "''H'' \<notin> sha ` set [example_commit ''A'' [''Z''], example_commit ''B'' [''Y'']]
   \<and> head_loop ''H'' 0 [example_commit ''A'' [''Z''], example_commit ''B'' [''Y'']]
     = [example_commit ''A'' [''Z''], example_commit ''B'' [''Y'']]
   \<and> (\<exists>out. linearize ''H'' [example_commit ''A'' [''Z''], example_commit ''B'' [''Y'']] = Inr out)"
proof -
  have absent: "''H'' \<notin> sha ` set [example_commit ''A'' [''Z''], example_commit ''B'' [''Y'']]"
    by (simp add: example_commit_def)
  have parents: "\<forall>c\<in>set [example_commit ''A'' [''Z''], example_commit ''B'' [''Y'']].
      parents c \<noteq> []"
    by (simp add: example_commit_def)
  from linearize_head_absent [OF absent] parents absent show ?thesis
    by blast
qed

text \<open>
  C3, as stated, fails: for the single record A (parent Z) and the head SHA H, which is the
  SHA of no record, the reordering returns the sequence with A rather than failing.
\<close>

theorem head_not_found_counterexample:
  "''H'' \<notin> sha ` set [example_commit ''A'' [''Z'']]
   \<and> linearize ''H'' [example_commit ''A'' [''Z'']] = Inr [example_commit ''A'' [''Z'']]"
proof -
  have "linearize ''H'' [example_commit ''A'' [''Z'']] = Inr [example_commit ''A'' [''Z'']]"
    by code_simp
  then show ?thesis
    by (simp add: example_commit_def)
qed

text \<open>
  C4, as amended: records unreachable from the head SHA are not dropped. Whenever the
  reordering returns, every input record, reachable from the head or not, is in the
  returned sequence, and the result is as long as the input.
\<close>

theorem linearize_keeps_every_record:
  assumes "linearize h commits = Inr out"
  shows "(\<forall>c\<in>set commits. c \<in> set out) \<and> length out = length commits"
  using assms by (metis linearize_mset mset_eq_length mset_eq_setD)

theorem linearize_keeps_every_record_witness:
  "linearize ''C'' [example_commit ''X'' [''Q''], example_commit ''C'' [''Z'']]
     = Inr [example_commit ''X'' [''Q''], example_commit ''C'' [''Z'']]
   \<and> example_commit ''X'' [''Q'']
       \<in> set [example_commit ''X'' [''Q''], example_commit ''C'' [''Z'']]"
proof -
  have run: "linearize ''C'' [example_commit ''X'' [''Q''], example_commit ''C'' [''Z'']]
     = Inr [example_commit ''X'' [''Q''], example_commit ''C'' [''Z'']]"
    by code_simp
  from linearize_keeps_every_record [OF run] run show ?thesis
    by simp
qed

text \<open>
  C4, as stated, fails: with head SHA C and the records C (parent B), B (parent Z) and
  X (parent Q), the walk from the head reaches C and B only, yet X is in the returned
  sequence, which has three elements and not two.
\<close>

theorem unreachable_kept_counterexample:
  "spec_reachable ''C'' [example_commit ''C'' [''B''], example_commit ''B'' [''Z''],
       example_commit ''X'' [''Q'']]
     = [example_commit ''C'' [''B''], example_commit ''B'' [''Z'']]
   \<and> example_commit ''X'' [''Q'']
       \<notin> set [example_commit ''C'' [''B''], example_commit ''B'' [''Z'']]
   \<and> linearize ''C'' [example_commit ''C'' [''B''], example_commit ''B'' [''Z''],
       example_commit ''X'' [''Q'']]
     = Inr [example_commit ''X'' [''Q''], example_commit ''B'' [''Z''],
         example_commit ''C'' [''B'']]"
proof -
  have "linearize ''C'' [example_commit ''C'' [''B''], example_commit ''B'' [''Z''],
       example_commit ''X'' [''Q'']]
     = Inr [example_commit ''X'' [''Q''], example_commit ''B'' [''Z''],
         example_commit ''C'' [''B'']]"
    by code_simp
  moreover have "spec_reachable ''C'' [example_commit ''C'' [''B''], example_commit ''B'' [''Z''],
       example_commit ''X'' [''Q'']]
     = [example_commit ''C'' [''B''], example_commit ''B'' [''Z'']]"
    by code_simp
  ultimately show ?thesis
    by (simp add: example_commit_def)
qed

text \<open>
  C6, as amended: for every input collection that is a shuffle of a connected linear chain
  (unique SHAs, every record but the root having the record before it as its first parent,
  the root's first parent, when it has one, being the SHA of no record) with the head SHA
  that of its newest record, the reordering of any permutation of the collection has the
  same outcome as the reordering of the collection: the same sequence, or the same
  TypeError when the root has no parent.
\<close>

theorem linearize_chain_order_independent:
  assumes "linear_chain chain" and "mset commits = mset chain" and "mset commits' = mset commits"
  shows "linearize (sha (last chain)) commits' = linearize (sha (last chain)) commits"
proof (cases "parents (hd chain) = []")
  case True
  from assms(1) have "hd chain \<in> set chain"
    by (simp add: linear_chain_def)
  with True have "\<exists>c\<in>set chain. parents c = []" by blast
  moreover have "set commits = set chain" "set commits' = set chain"
    using assms(2,3) by (metis mset_eq_setD)+
  ultimately have "linearize (sha (last chain)) commits' = Inl TypeError"
    and "linearize (sha (last chain)) commits = Inl TypeError"
    by (simp_all add: linearize_orphan)
  then show ?thesis by simp
next
  case False
  from assms(3,2) have "mset commits' = mset chain" by simp
  with assms(1) False have "linearize (sha (last chain)) commits' = Inr chain"
    by (intro linearize_chain) simp_all
  moreover from assms(1,2) False have "linearize (sha (last chain)) commits = Inr chain"
    by (intro linearize_chain) simp_all
  ultimately show ?thesis by simp
qed

theorem linearize_chain_order_independent_witness:
  "linear_chain [example_commit ''A'' [''Z''], example_commit ''B'' [''A'']]
   \<and> linearize ''B'' [example_commit ''A'' [''Z''], example_commit ''B'' [''A'']]
     = linearize ''B'' [example_commit ''B'' [''A''], example_commit ''A'' [''Z'']]
   \<and> linear_chain [example_commit ''A'' [], example_commit ''B'' [''A'']]
   \<and> linearize ''B'' [example_commit ''A'' [], example_commit ''B'' [''A'']]
     = linearize ''B'' [example_commit ''B'' [''A''], example_commit ''A'' []]"
  using linearize_chain_order_independent [of
      "[example_commit ''A'' [''Z''], example_commit ''B'' [''A'']]"
      "[example_commit ''B'' [''A''], example_commit ''A'' [''Z'']]"
      "[example_commit ''A'' [''Z''], example_commit ''B'' [''A'']]"]
    linearize_chain_order_independent [of
      "[example_commit ''A'' [], example_commit ''B'' [''A'']]"
      "[example_commit ''B'' [''A''], example_commit ''A'' []]"
      "[example_commit ''A'' [], example_commit ''B'' [''A'']]"]
  by (simp add: linear_chain_def first_parent_def example_commit_def)

text \<open>
  C6, as stated, fails: with head SHA C, the records C (parent Z), X (parent Q) and
  Y (parent R) give Y, X, C in one order of the input and X, Y, C in another. The records
  that the walk from the head does not reach keep their input order, reversed. The head
  SHA matters too: the chain A (parent Z), B, C with the SHA of its root A as head SHA
  gives A, C, B when the input is A, B, C and A, B, C when the input is C, B, A.
\<close>

theorem shuffle_counterexample:
  "mset [example_commit ''C'' [''Z''], example_commit ''Y'' [''R''], example_commit ''X'' [''Q'']]
     = mset [example_commit ''C'' [''Z''], example_commit ''X'' [''Q''],
         example_commit ''Y'' [''R'']]
   \<and> linearize ''C'' [example_commit ''C'' [''Z''], example_commit ''X'' [''Q''],
       example_commit ''Y'' [''R'']]
     \<noteq> linearize ''C'' [example_commit ''C'' [''Z''], example_commit ''Y'' [''R''],
       example_commit ''X'' [''Q'']]
   \<and> mset [example_commit ''C'' [''B''], example_commit ''B'' [''A''], example_commit ''A'' [''Z'']]
     = mset [example_commit ''A'' [''Z''], example_commit ''B'' [''A''],
         example_commit ''C'' [''B'']]
   \<and> linearize ''A'' [example_commit ''A'' [''Z''], example_commit ''B'' [''A''],
       example_commit ''C'' [''B'']]
     \<noteq> linearize ''A'' [example_commit ''C'' [''B''], example_commit ''B'' [''A''],
       example_commit ''A'' [''Z'']]"
proof -
  have "linearize ''C'' [example_commit ''C'' [''Z''], example_commit ''X'' [''Q''],
       example_commit ''Y'' [''R'']]
     = Inr [example_commit ''Y'' [''R''], example_commit ''X'' [''Q''],
         example_commit ''C'' [''Z'']]"
    by code_simp
  moreover have "linearize ''C'' [example_commit ''C'' [''Z''], example_commit ''Y'' [''R''],
       example_commit ''X'' [''Q'']]
     = Inr [example_commit ''X'' [''Q''], example_commit ''Y'' [''R''],
         example_commit ''C'' [''Z'']]"
    by code_simp
  moreover have "linearize ''A'' [example_commit ''A'' [''Z''], example_commit ''B'' [''A''],
       example_commit ''C'' [''B'']]
     = Inr [example_commit ''A'' [''Z''], example_commit ''C'' [''B''],
         example_commit ''B'' [''A'']]"
    by code_simp
  moreover have "linearize ''A'' [example_commit ''C'' [''B''], example_commit ''B'' [''A''],
       example_commit ''A'' [''Z'']]
     = Inr [example_commit ''A'' [''Z''], example_commit ''B'' [''A''],
         example_commit ''C'' [''B'']]"
    by code_simp
  ultimately show ?thesis
    by (simp add: example_commit_def)
qed

text \<open>
  C7, as amended: for every input collection that is a shuffle of a connected linear chain
  with unique SHAs, all of whose records are on the walk from the head SHA (the SHA of the
  newest record), and whose root has a first parent that equals no record's SHA in the
  collection, the reordering terminates normally, the root is the first element of the
  returned sequence, and the first parent of that element is the SHA of no input record.
\<close>

theorem linearize_chain_root_first:
  assumes "linear_chain chain" and "parents (hd chain) \<noteq> []"
    and "mset commits = mset chain" and "h = sha (last chain)"
  shows "\<exists>out. linearize h commits = Inr out \<and> out \<noteq> [] \<and> hd out = hd chain \<and>
           (\<exists>p. first_parent (hd out) = Some p \<and> p \<notin> sha ` set commits)"
proof -
  from assms have run: "linearize h commits = Inr chain"
    by (rule linearize_chain)
  from assms(1) have ne: "chain \<noteq> []" by (simp add: linear_chain_def)
  from assms(1,2) obtain p where "first_parent (hd chain) = Some p" "p \<notin> sha ` set chain"
    by (auto simp: linear_chain_def first_parent_def split: list.splits)
  moreover have "set commits = set chain"
    using assms(3) by (rule mset_eq_setD)
  ultimately show ?thesis
    using run ne by auto
qed

theorem linearize_chain_root_first_witness:
  "linear_chain [example_commit ''R'' [''Z''], example_commit ''S'' [''R''],
       example_commit ''T'' [''S'']]
   \<and> (\<exists>out. linearize ''T'' [example_commit ''S'' [''R''], example_commit ''T'' [''S''],
         example_commit ''R'' [''Z'']] = Inr out
       \<and> hd out = example_commit ''R'' [''Z''])"
  using linearize_chain_root_first [of
      "[example_commit ''R'' [''Z''], example_commit ''S'' [''R''], example_commit ''T'' [''S'']]"
      "[example_commit ''S'' [''R''], example_commit ''T'' [''S''], example_commit ''R'' [''Z'']]"
      "''T''"]
  by (auto simp add: linear_chain_def first_parent_def example_commit_def)

text \<open>
  C7, as stated, fails: with head SHA C and the records C (parent B), B (parent Z) and
  X (parent C), the walk from the head ends at B, whose parent Z is the SHA of no record.
  The reordering returns C, X, B: its first element is C, not B, and the parent of C is
  the SHA of the record B.
\<close>

theorem root_not_first_counterexample:
  "spec_reachable ''C'' [example_commit ''C'' [''B''], example_commit ''B'' [''Z''],
       example_commit ''X'' [''C'']]
     = [example_commit ''C'' [''B''], example_commit ''B'' [''Z'']]
   \<and> first_parent (example_commit ''B'' [''Z'']) = Some ''Z''
   \<and> ''Z'' \<notin> sha ` set [example_commit ''C'' [''B''], example_commit ''B'' [''Z''],
       example_commit ''X'' [''C'']]
   \<and> linearize ''C'' [example_commit ''C'' [''B''], example_commit ''B'' [''Z''],
       example_commit ''X'' [''C'']]
     = Inr [example_commit ''C'' [''B''], example_commit ''X'' [''C''],
         example_commit ''B'' [''Z'']]
   \<and> first_parent (example_commit ''C'' [''B'']) = Some ''B''
   \<and> ''B'' \<in> sha ` set [example_commit ''C'' [''B''], example_commit ''B'' [''Z''],
       example_commit ''X'' [''C'']]"
proof -
  have "linearize ''C'' [example_commit ''C'' [''B''], example_commit ''B'' [''Z''],
       example_commit ''X'' [''C'']]
     = Inr [example_commit ''C'' [''B''], example_commit ''X'' [''C''],
         example_commit ''B'' [''Z'']]"
    by code_simp
  moreover have "spec_reachable ''C'' [example_commit ''C'' [''B''], example_commit ''B'' [''Z''],
       example_commit ''X'' [''C'']]
     = [example_commit ''C'' [''B''], example_commit ''B'' [''Z'']]"
    by code_simp
  ultimately show ?thesis
    by (simp add: example_commit_def first_parent_def)
qed

section \<open>The claims about the temporary ref\<close>

text \<open>
  C2, as amended: when the temporary ref has been created, the outcome of
  \<open>withTemporaryRef\<close> is decided by the deletion first. When the deletion fails, its error
  is the one propagated, whether the action raised or returned; when the deletion succeeds,
  the outcome is the action's own: its error when it raised, its value when it returned.
\<close>

theorem withTemporaryRef_error_propagation:
  assumes "createRef octokit owner (generateUniqueRef uuid ref) repo commit_sha s = (Inr (), s1)"
    and "action (generateUniqueRef uuid ref) s1 = (r, s2)"
    and "deleteRef octokit owner (generateUniqueRef uuid ref) repo s2 = (d, s3)"
  shows "(\<forall>e. d = Inl e \<longrightarrow>
            withTemporaryRef action octokit uuid owner ref repo commit_sha s = (Inl e, s3)) \<and>
         (d = Inr () \<longrightarrow>
            withTemporaryRef action octokit uuid owner ref repo commit_sha s = (r, s3))"
  using assms by (auto simp: withTemporaryRef_created try_finally_def)

theorem withTemporaryRef_error_propagation_witness:
  "withTemporaryRef (\<lambda>ref s. (Inl ''Err'' :: string + nat, s)) (example_octokit (Inr ()) (Inr ()))
      ''uuid'' ''owner'' ''foo'' ''repo'' ''abc123'' ()
     = (Inl ''Err'', ())
   \<and> withTemporaryRef (\<lambda>ref s. (Inr 7 :: string + nat, s))
      (example_octokit (Inr ()) (Inl ''RefNotFound''))
      ''uuid'' ''owner'' ''foo'' ''repo'' ''abc123'' ()
     = (Inl ''RefNotFound'', ())"
  using withTemporaryRef_error_propagation [of "example_octokit (Inr ()) (Inr ())" "''owner''"
      "''uuid''" "''foo''" "''repo''" "''abc123''" "()" "()"
      "\<lambda>ref s. (Inl ''Err'' :: string + nat, s)" "Inl ''Err''" "()" "Inr ()" "()"]
    withTemporaryRef_error_propagation [of "example_octokit (Inr ()) (Inl ''RefNotFound'')"
      "''owner''" "''uuid''" "''foo''" "''repo''" "''abc123''" "()" "()"
      "\<lambda>ref s. (Inr 7 :: string + nat, s)" "Inr 7" "()" "Inl ''RefNotFound''" "()"]
  by (simp add: createRef_def deleteRef_def example_octokit_def)

text \<open>
  C2, as stated, fails: with an action that raises \<open>Err\<close> and a deletion that fails with
  \<open>RefNotFound\<close>, the error propagated is \<open>RefNotFound\<close>, not the action's own error.
\<close>

theorem deletion_error_masks_counterexample:
  "withTemporaryRef (\<lambda>ref s. (Inl ''Err'' :: string + nat, s))
      (example_octokit (Inr ()) (Inl ''RefNotFound''))
      ''uuid'' ''owner'' ''foo'' ''repo'' ''abc123'' ()
     = (Inl ''RefNotFound'', ())"
  by (simp add: withTemporaryRef_def createTemporaryRef_def try_finally_def createRef_def
      deleteRef_def example_octokit_def)

text \<open>
  C5: in every execution of \<open>withTemporaryRef\<close> in which the temporary ref has been created
  and the action has completed, whether it returned or raised, the remote calls made after
  the action are exactly one: the deletion of the temporary ref. Before the action, the
  only call is the creation of the ref. The calls are those a recording client has logged.
\<close>

theorem withTemporaryRef_deletes_once:
  assumes "createRef (recording octokit) owner (generateUniqueRef uuid ref) repo commit_sha w
      = (Inr (), w1)"
    and "action (generateUniqueRef uuid ref) w1 = (r, w2)"
  shows "fst w1 = fst w @ [CreateRef owner (''refs/heads/'' @ ref @ ''-'' @ uuid) repo commit_sha] \<and>
         (\<exists>res w3. withTemporaryRef action (recording octokit) uuid owner ref repo commit_sha w
             = (res, w3) \<and>
           fst w3 = fst w2 @ [DeleteRef owner (''heads/'' @ ref @ ''-'' @ uuid) repo])"
proof
  from assms(1) show "fst w1
      = fst w @ [CreateRef owner (''refs/heads/'' @ ref @ ''-'' @ uuid) repo commit_sha]"
    by (cases w)
       (auto simp: createRef_def recording_def getFullyQualifiedRef_def getHeadRef_def
         generateUniqueRef_def split: prod.splits)
next
  from assms show "\<exists>res w3. withTemporaryRef action (recording octokit) uuid owner ref repo
      commit_sha w = (res, w3) \<and>
      fst w3 = fst w2 @ [DeleteRef owner (''heads/'' @ ref @ ''-'' @ uuid) repo]"
    by (cases w2)
       (auto simp: withTemporaryRef_created try_finally_def deleteRef_def recording_def
         getHeadRef_def generateUniqueRef_def split: prod.splits sum.splits)
qed

theorem withTemporaryRef_deletes_once_witness:
  "(\<exists>res w3. withTemporaryRef (\<lambda>ref w. (Inl ''Err'' :: string + nat, w))
       (recording (example_octokit (Inr ()) (Inr ()))) ''u1'' ''owner'' ''foo'' ''repo'' ''abc123''
       ([], ())
     = (res, w3)
   \<and> fst w3 = [CreateRef ''owner'' ''refs/heads/foo-u1'' ''repo'' ''abc123'',
       DeleteRef ''owner'' ''heads/foo-u1'' ''repo''])
   \<and> (\<exists>res w3. withTemporaryRef (\<lambda>ref w. (Inr 7 :: string + nat, w))
       (recording (example_octokit (Inr ()) (Inr ()))) ''u1'' ''owner'' ''foo'' ''repo'' ''abc123''
       ([], ())
     = (res, w3)
   \<and> fst w3 = [CreateRef ''owner'' ''refs/heads/foo-u1'' ''repo'' ''abc123'',
       DeleteRef ''owner'' ''heads/foo-u1'' ''repo''])"
  using withTemporaryRef_deletes_once [of "example_octokit (Inr ()) (Inr ())" "''owner''" "''u1''"
      "''foo''" "''repo''" "''abc123''" "([], ())"
      "([CreateRef ''owner'' ''refs/heads/foo-u1'' ''repo'' ''abc123''], ())"
      "\<lambda>ref w. (Inl ''Err'' :: string + nat, w)" "Inl ''Err''"
      "([CreateRef ''owner'' ''refs/heads/foo-u1'' ''repo'' ''abc123''], ())"]
    withTemporaryRef_deletes_once [of "example_octokit (Inr ()) (Inr ())" "''owner''" "''u1''"
      "''foo''" "''repo''" "''abc123''" "([], ())"
      "([CreateRef ''owner'' ''refs/heads/foo-u1'' ''repo'' ''abc123''], ())"
      "\<lambda>ref w. (Inr 7 :: string + nat, w)" "Inr 7"
      "([CreateRef ''owner'' ''refs/heads/foo-u1'' ''repo'' ''abc123''], ())"]
  by (simp add: createRef_def recording_def example_octokit_def getFullyQualifiedRef_def
      getHeadRef_def generateUniqueRef_def)

text \<open>
  C8: for every base ref name, the name generated by \<open>generateUniqueRef\<close> is the base name,
  a hyphen and the suffix that \<open>generateUuid\<close> returned; two names with the same base are
  equal only when their suffixes are, and two names whose suffixes are equally long (as
  those of one generator of fixed-length identifiers are) only when both their bases and
  their suffixes are. \<open>createTemporaryRef\<close> makes one remote call, which creates
  \<open>refs/heads/\<close> followed by that name at the supplied SHA, and returns that name. When
  the ref has been created, \<open>withTemporaryRef\<close> runs the action on that name in the state
  the creation has left: its outcome is that of the action on that name, or the error of
  the deletion, and the deletion is that of \<open>heads/\<close> followed by the same name.
\<close>

theorem temporary_ref_name:
  "generateUniqueRef uuid ref = ref @ ''-'' @ uuid \<and>
   (\<forall>uuid'. generateUniqueRef uuid' ref = generateUniqueRef uuid ref \<longrightarrow> uuid' = uuid) \<and>
   (\<forall>ref' uuid'. length uuid' = length uuid \<longrightarrow>
      generateUniqueRef uuid' ref' = generateUniqueRef uuid ref \<longrightarrow> ref' = ref \<and> uuid' = uuid) \<and>
   (\<forall>res w1. createTemporaryRef (recording octokit) uuid owner ref repo commit_sha (calls, s)
        = (res, w1) \<longrightarrow>
      fst w1 = calls @ [CreateRef owner (''refs/heads/'' @ ref @ ''-'' @ uuid) repo commit_sha] \<and>
      (\<forall>t. res = Inr t \<longrightarrow>
         temporaryRef t = ref @ ''-'' @ uuid \<and>
         (\<forall>r w2 d w3. action (ref @ ''-'' @ uuid) w1 = (r, w2) \<longrightarrow>
            deleteRef (recording octokit) owner (ref @ ''-'' @ uuid) repo w2 = (d, w3) \<longrightarrow>
            withTemporaryRef action (recording octokit) uuid owner ref repo commit_sha (calls, s)
              = ((case d of Inl e \<Rightarrow> Inl e | Inr u \<Rightarrow> r), w3) \<and>
            fst w3 = fst w2 @ [DeleteRef owner (''heads/'' @ ref @ ''-'' @ uuid) repo])))"
proof (intro conjI allI impI)
  show "generateUniqueRef uuid ref = ref @ ''-'' @ uuid"
    by (simp add: generateUniqueRef_def)
next
  fix uuid' assume "generateUniqueRef uuid' ref = generateUniqueRef uuid ref"
  then show "uuid' = uuid" by (simp add: generateUniqueRef_def)
next
  fix ref' uuid'
  assume "length uuid' = length uuid" "generateUniqueRef uuid' ref' = generateUniqueRef uuid ref"
  then show "ref' = ref" and "uuid' = uuid"
    using generateUniqueRef_inject by blast+
next
  fix res w1
  assume "createTemporaryRef (recording octokit) uuid owner ref repo commit_sha (calls, s)
      = (res, w1)"
  then show "fst w1
      = calls @ [CreateRef owner (''refs/heads/'' @ ref @ ''-'' @ uuid) repo commit_sha]"
    by (auto simp: createTemporaryRef_def createRef_def recording_def getFullyQualifiedRef_def
        getHeadRef_def generateUniqueRef_def Let_def split: prod.splits sum.splits)
next
  fix res w1 t
  assume "createTemporaryRef (recording octokit) uuid owner ref repo commit_sha (calls, s)
      = (res, w1)" and "res = Inr t"
  then show "temporaryRef t = ref @ ''-'' @ uuid"
    by (auto simp: createTemporaryRef_def generateUniqueRef_def Let_def
        split: prod.splits sum.splits)
next
  fix res w1 t r w2 d w3
  assume run: "createTemporaryRef (recording octokit) uuid owner ref repo commit_sha (calls, s)
      = (res, w1)" and res: "res = Inr t"
    and act: "action (ref @ ''-'' @ uuid) w1 = (r, w2)"
    and del: "deleteRef (recording octokit) owner (ref @ ''-'' @ uuid) repo w2 = (d, w3)"
  from run res obtain u where created: "createRef (recording octokit) owner
      (generateUniqueRef uuid ref) repo commit_sha (calls, s) = (Inr u, w1)"
    by (auto simp: createTemporaryRef_def Let_def split: prod.splits sum.splits)
  have name: "generateUniqueRef uuid ref = ref @ ''-'' @ uuid"
    by (simp add: generateUniqueRef_def)
  show "withTemporaryRef action (recording octokit) uuid owner ref repo commit_sha (calls, s)
      = ((case d of Inl e \<Rightarrow> Inl e | Inr u \<Rightarrow> r), w3)"
    using act del
    by (simp add: withTemporaryRef_created [OF created] name try_finally_def split: sum.splits)
  from del show "fst w3 = fst w2 @ [DeleteRef owner (''heads/'' @ ref @ ''-'' @ uuid) repo]"
    by (cases w2) (auto simp: deleteRef_def recording_def getHeadRef_def split: prod.splits)
qed

theorem temporary_ref_name_witness:
  "generateUniqueRef ''u2'' ''foo'' = ''foo-u2''
   \<and> generateUniqueRef ''u3'' ''foo'' \<noteq> generateUniqueRef ''u2'' ''foo''
   \<and> generateUniqueRef ''u2'' ''fo'' \<noteq> generateUniqueRef ''u2'' ''foo''
   \<and> withTemporaryRef (\<lambda>name w. (Inr name :: string + string, w))
       (recording (example_octokit (Inr ()) (Inr ()))) ''u2'' ''owner'' ''foo'' ''repo'' ''abc123''
       ([], ())
     = (Inr ''foo-u2'',
        ([CreateRef ''owner'' ''refs/heads/foo-u2'' ''repo'' ''abc123'',
          DeleteRef ''owner'' ''heads/foo-u2'' ''repo''], ()))"
proof -
  note name = temporary_ref_name [where uuid = "''u2''" and ref = "''foo''"
      and octokit = "example_octokit (Inr ()) (Inr ())" and owner = "''owner''"
      and repo = "''repo''" and commit_sha = "''abc123''" and calls = "[]" and s = "()"
      and action = "\<lambda>name w. (Inr name :: string + string, w)"]
  obtain res w1 where run: "createTemporaryRef (recording (example_octokit (Inr ()) (Inr ())))
      ''u2'' ''owner'' ''foo'' ''repo'' ''abc123'' ([], ()) = (res, w1)"
    by (metis surj_pair)
  then obtain t where res: "res = Inr t"
    by (auto simp: createTemporaryRef_def createRef_def recording_def example_octokit_def
        Let_def)
  note created = name [THEN conjunct2, THEN conjunct2, THEN conjunct2, rule_format, OF run]
  from created [THEN conjunct1]
  have log1: "fst w1 = [CreateRef ''owner'' ''refs/heads/foo-u2'' ''repo'' ''abc123'']"
    by simp
  then have w1: "w1 = ([CreateRef ''owner'' ''refs/heads/foo-u2'' ''repo'' ''abc123''], ())"
    by (cases w1) simp
  have del: "deleteRef (recording (example_octokit (Inr ()) (Inr ()))) ''owner'' (''foo'' @ ''-'' @ ''u2'')
      ''repo'' w1
    = (Inr (), ([CreateRef ''owner'' ''refs/heads/foo-u2'' ''repo'' ''abc123'',
          DeleteRef ''owner'' ''heads/foo-u2'' ''repo''], ()))"
    by (simp add: w1 deleteRef_def recording_def example_octokit_def getHeadRef_def)
  have act: "(\<lambda>name w. (Inr name :: string + string, w)) (''foo'' @ ''-'' @ ''u2'') w1
      = (Inr ''foo-u2'', w1)"
    by simp
  from created [THEN conjunct2, rule_format, OF res, THEN conjunct2, rule_format, OF act del]
  have main: "withTemporaryRef (\<lambda>name w. (Inr name :: string + string, w))
       (recording (example_octokit (Inr ()) (Inr ()))) ''u2'' ''owner'' ''foo'' ''repo'' ''abc123''
       ([], ())
     = (Inr ''foo-u2'',
        ([CreateRef ''owner'' ''refs/heads/foo-u2'' ''repo'' ''abc123'',
          DeleteRef ''owner'' ''heads/foo-u2'' ''repo''], ()))"
    by simp
  from name [THEN conjunct1] have n1: "generateUniqueRef ''u2'' ''foo'' = ''foo-u2''"
    by simp
  from name [THEN conjunct2, THEN conjunct1, rule_format, of "''u3''"]
  have n2: "generateUniqueRef ''u3'' ''foo'' \<noteq> generateUniqueRef ''u2'' ''foo''"
    by auto
  from name [THEN conjunct2, THEN conjunct2, THEN conjunct1, rule_format, of "''u2''" "''fo''"]
  have n3: "generateUniqueRef ''u2'' ''fo'' \<noteq> generateUniqueRef ''u2'' ''foo''"
    by auto
  note n1 n2 n3
  with main show ?thesis by simp
qed

end
